theory Spec2Isabelle
  imports Main "HOL-Library.Word"
begin

unbundle bit_operations_syntax

section \<open>Data model of \<open>dht/hashtable.go\<close>\<close>

text \<open>
  Identifiers are Go byte slices (\<open>[]byte\<close>): lists of 8-bit words. Go's \<open>int\<close> is
  modelled as \<open>int\<close>: every integer of the file is a bucket index, a bit position or a
  count bounded by the length of a slice, far from the 64-bit limits. The mutex is left
  out: the model is sequential, each operation runs from lock to unlock.
\<close>

type_synonym byte = "8 word"

definition b :: int where
  "b = 160"

definition k :: nat where
  "k = 20"

text \<open>
  Modelled from the spec: the type \<open>Options\<close> is declared outside \<open>hashtable.go\<close>;
  \<open>newHashTable\<close> reads its fields \<open>ID\<close> (a byte slice that may be \<open>nil\<close>, here
  \<open>None\<close>), \<open>IP\<close> and \<open>Port\<close> (strings). The spec: "ID: optional fixed Identifier
  (if absent, generate 20 random bytes), IP: required dotted address string, Port:
  required numeric port string".
\<close>

record Options =
  ID :: "byte list option"
  IP :: string
  Port :: string

text \<open>
  Modelled from the spec: the type \<open>NetworkNode\<close> is declared outside
  \<open>hashtable.go\<close>; the file uses its fields \<open>ID\<close> (a byte slice), \<open>IP\<close> (the
  \<open>net.IP\<close> byte slice that \<open>net.ParseIP\<close> returns) and \<open>Port\<close> (an \<open>int\<close>). The
  type \<open>node\<close> of the routing table's contacts is, in the spec's words, "a NetworkNode
  known to the local routing table"; it is the same record here. Pointers are modelled
  by the values they point to (no \<open>nil\<close> contact, no mutation through a pointer occurs
  in the file).
\<close>

record NetworkNode =
  ID :: "byte list"
  IP :: "byte list"
  Port :: int

type_synonym node = NetworkNode

record hashTable =
  Self :: NetworkNode
  RoutingTable :: "node list list"

text \<open>Run-time panics of the Go code, and the error values \<open>newHashTable\<close> returns.\<close>

datatype panic = IndexOutOfRange | NewIDFailed

datatype error = PortAndIPRequired | AtoiError

section \<open>The distance metric\<close>

text \<open>
  \<open>hasBit(n byte, pos uint)\<close>: \<open>pos = 7 - pos\<close> wraps around in \<open>uint\<close> (64 bits
  here), and a shift of a byte by 8 or more gives 0.
\<close>

definition hasBit :: "byte \<Rightarrow> 64 word \<Rightarrow> bool" where
  "hasBit n pos = (let pos' = 7 - pos; val = n AND push_bit (unat pos') 1 in val > 0)"

text \<open>
  The inner loop of \<open>getBucketIndexFromDifferingBit\<close>, \<open>for i := 0; i < 8; i++\<close>,
  started at \<open>i\<close>: the first \<open>i\<close> whose bit is set in the byte \<open>xor\<close> (here \<open>xr\<close>), if any.
\<close>

function scanBits :: "byte \<Rightarrow> nat \<Rightarrow> nat option" where
  "scanBits xr i =
     (if i < 8 then (if hasBit xr (of_nat i) then Some i else scanBits xr (i + 1))
      else None)"
  by pat_completeness auto
termination
  by (relation "measure (\<lambda>(xr, i). 8 - i)") auto

text \<open>
  The outer loop, \<open>for j := 0; j < len(id1); j++\<close>, with the rest of both slices from
  position \<open>j\<close> on. Reading \<open>id2[j]\<close> past the end of \<open>id2\<close> panics.
\<close>

fun differingBitLoop :: "int \<Rightarrow> byte list \<Rightarrow> byte list \<Rightarrow> panic + int" where
  "differingBitLoop j [] id2 = Inr 0"
| "differingBitLoop j (x # id1) [] = Inl IndexOutOfRange"
| "differingBitLoop j (x # id1) (y # id2) =
     (case scanBits (x XOR y) 0 of
        Some i \<Rightarrow> (let byteIndex = j * 8; bitIndex = int i in Inr (b - (byteIndex + bitIndex) - 1))
      | None \<Rightarrow> differingBitLoop (j + 1) id1 id2)"

definition getBucketIndexFromDifferingBit :: "byte list \<Rightarrow> byte list \<Rightarrow> panic + int" where
  "getBucketIndexFromDifferingBit id1 id2 = differingBitLoop 0 id1 id2"

text \<open>
  The words of the specification, to compare the code with: the bits of an identifier
  from the most significant bit of byte 0 to the least significant bit of the last
  byte, and the byte-wise XOR of two identifiers.
\<close>

definition byteBits :: "byte \<Rightarrow> bool list" where
  "byteBits x = map (\<lambda>i. bit x (7 - i)) [0..<8]"

definition idBits :: "byte list \<Rightarrow> bool list" where
  "idBits bs = concat (map byteBits bs)"

definition xorBytes :: "byte list \<Rightarrow> byte list \<Rightarrow> byte list" where
  "xorBytes id1 id2 = map2 (XOR) id1 id2"

section \<open>Construction\<close>

text \<open>
  \<open>strconv.Atoi\<close> of the Go standard library, for a 64-bit \<open>int\<close>: an optional sign,
  then one or more decimal digits, the value within the range of \<open>int\<close>; anything else
  is an error.
\<close>

definition isDigit :: "char \<Rightarrow> bool" where
  "isDigit c = (48 \<le> (of_char c :: int) \<and> (of_char c :: int) \<le> 57)"

fun digitsValue :: "string \<Rightarrow> int \<Rightarrow> int option" where
  "digitsValue [] n = Some n"
| "digitsValue (c # cs) n =
     (if isDigit c then digitsValue cs (n * 10 + (of_char c - 48)) else None)"

definition Atoi :: "string \<Rightarrow> error + int" where
  "Atoi s =
     (let neg = (case s of [] \<Rightarrow> False | c # r \<Rightarrow> c = CHR ''-'');
          ds = (case s of [] \<Rightarrow> [] | c # r \<Rightarrow> if c = CHR ''-'' \<or> c = CHR ''+'' then r else s)
      in if ds = [] then Inl AtoiError
         else (case digitsValue ds 0 of
                 None \<Rightarrow> Inl AtoiError
               | Some n \<Rightarrow>
                   (let v = (if neg then - n else n)
                    in if - (2 ^ 63) \<le> v \<and> v < 2 ^ 63 then Inr v else Inl AtoiError)))"

text \<open>
  \<open>newID\<close>: 20 bytes filled by \<open>rand.Read\<close>. The random source is the parameter
  \<open>rnd\<close>: \<open>None\<close> when \<open>rand.Read\<close> fails, otherwise the bytes it delivers (the
  first 20 of them, zeros added if there are fewer, so that the result has the 20
  bytes of \<open>make([]byte, 20)\<close>).
\<close>

definition newID :: "byte list option \<Rightarrow> byte list option" where
  "newID rnd = (case rnd of None \<Rightarrow> None | Some bs \<Rightarrow> Some (take 20 (bs @ replicate 20 0)))"

text \<open>The loop \<open>for i := 0; i < b; i++\<close> that appends one empty bucket per round.\<close>

function appendBuckets :: "int \<Rightarrow> node list list \<Rightarrow> node list list" where
  "appendBuckets i rt = (if i < b then appendBuckets (i + 1) (rt @ [[]]) else rt)"
  by pat_completeness auto
termination
  by (relation "measure (\<lambda>(i, rt). nat (b - i))") auto

text \<open>
  \<open>newHashTable\<close>. \<open>net.ParseIP\<close> is the parameter \<open>parseIP\<close>. The result is a panic
  (\<open>newID\<close> failed), or the pair Go returns: an error and no table, or a table.
\<close>

definition newHashTable ::
  "(string \<Rightarrow> byte list) \<Rightarrow> byte list option \<Rightarrow> Options \<Rightarrow> panic + (error + hashTable)" where
  "newHashTable parseIP rnd options =
     (case (case Options.ID options of Some i \<Rightarrow> Some i | None \<Rightarrow> newID rnd) of
        None \<Rightarrow> Inl NewIDFailed
      | Some selfID \<Rightarrow>
          if Options.IP options = [] \<or> Options.Port options = [] then Inr (Inl PortAndIPRequired)
          else (case Atoi (Options.Port options) of
                  Inl err \<Rightarrow> Inr (Inl err)
                | Inr port \<Rightarrow>
                    Inr (Inr \<lparr>Self = \<lparr>ID = selfID, IP = parseIP (Options.IP options), Port = port\<rparr>,
                              RoutingTable = appendBuckets 0 []\<rparr>)))"

section \<open>Insertion\<close>

text \<open>The loop of \<open>addNode\<close> over the bucket: is there a contact with this identifier?\<close>

fun containsID :: "node list \<Rightarrow> byte list \<Rightarrow> bool" where
  "containsID [] i = False"
| "containsID (v # bucket) i = (if ID v = i then True else containsID bucket i)"

definition addNode :: "node \<Rightarrow> hashTable \<Rightarrow> panic + hashTable" where
  "addNode node ht =
     (case getBucketIndexFromDifferingBit (ID (Self ht)) (ID node) of
        Inl p \<Rightarrow> Inl p
      | Inr index \<Rightarrow>
          if index < 0 \<or> int (length (RoutingTable ht)) \<le> index then Inl IndexOutOfRange
          else (let bucket = RoutingTable ht ! nat index
                in if containsID bucket (ID node) then Inr ht
                   else (let bucket = bucket @ [node];
                             bucket = (if length bucket > k then take (length bucket - 1) bucket
                                       else bucket)
                         in Inr (ht\<lparr>RoutingTable := (RoutingTable ht)[nat index := bucket]\<rparr>))))"

text \<open>A sequence of \<open>addNode\<close> calls, first to last; a panic ends it.\<close>

fun addNodes :: "node list \<Rightarrow> hashTable \<Rightarrow> panic + hashTable" where
  "addNodes [] ht = Inr ht"
| "addNodes (n # ns) ht = (case addNode n ht of Inl p \<Rightarrow> Inl p | Inr ht' \<Rightarrow> addNodes ns ht')"

section \<open>The candidate shortlist\<close>

text \<open>
  Modelled from the spec: the type \<open>shortList\<close>, its method \<open>AppendUnique\<close> and the
  \<open>Len\<close>, \<open>Less\<close> and \<open>Swap\<close> that \<open>sort.Sort\<close> calls are declared outside
  \<open>hashtable.go\<close>. The spec: an ordered sequence of contacts, no two with the same
  identifier; "the comparison key is XOR distance from a fixed query target (supplied at
  construction or at sort time)"; \<open>appendUnique\<close> "adds each given contact to the
  shortlist only if no existing entry shares its Identifier; preserves insertion order
  otherwise". The target of the comparison is the field \<open>Comparator\<close>; the XOR distance
  of two identifiers is the XOR of the two big-endian numbers they spell.
\<close>

record shortList =
  Nodes :: "NetworkNode list"
  Comparator :: "byte list"

fun AppendUnique :: "node list \<Rightarrow> shortList \<Rightarrow> shortList" where
  "AppendUnique [] sl = sl"
| "AppendUnique (vv # nodes) sl =
     AppendUnique nodes (if containsID (Nodes sl) (ID vv) then sl else sl\<lparr>Nodes := Nodes sl @ [vv]\<rparr>)"

definition bytesToInt :: "byte list \<Rightarrow> int" where
  "bytesToInt bs = foldl (\<lambda>acc x. acc * 256 + uint x) 0 bs"

definition xorDistance :: "byte list \<Rightarrow> byte list \<Rightarrow> int" where
  "xorDistance id1 id2 = bytesToInt id1 XOR bytesToInt id2"

definition sortShortList :: "shortList \<Rightarrow> shortList" where
  "sortShortList sl = sl\<lparr>Nodes := sort_key (\<lambda>n. xorDistance (ID n) (Comparator sl)) (Nodes sl)\<rparr>"

section \<open>The closest-contacts query\<close>

text \<open>
  The loop \<open>for len(indexList) < b\<close> of \<open>getClosestContacts\<close>. Nothing in the loop
  itself bounds the number of rounds, so it is a partial function: \<open>None\<close> is a loop
  that never ends.
\<close>

partial_function (option) buildIndexList :: "int list \<Rightarrow> int \<Rightarrow> int \<Rightarrow> int list option" where
  "buildIndexList indexList i j =
     (if int (length indexList) < b
      then buildIndexList
             ((if j < b then indexList @ [j] else indexList) @ (if i \<ge> 0 then [i] else []))
             (i - 1) (j + 1)
      else Some indexList)"

declare buildIndexList.simps [code]

text \<open>
  The loop \<open>for j := 0; j < len(ignoredNodes); j++\<close>: each entry of the ignore list is
  compared with itself, as the source does.
\<close>

fun ignoredLoop :: "NetworkNode list \<Rightarrow> bool \<Rightarrow> bool" where
  "ignoredLoop [] ignored = ignored"
| "ignoredLoop (n # ignoredNodes) ignored =
     ignoredLoop ignoredNodes (if ID n = ID n then True else ignored)"

text \<open>
  The loop over the contacts of one bucket, from the contact at hand to the last one or
  to the \<open>break\<close>; the state is the shortlist and \<open>leftToAdd\<close>.
\<close>

fun bucketLoop :: "node list \<Rightarrow> NetworkNode list \<Rightarrow> shortList \<times> int \<Rightarrow> shortList \<times> int" where
  "bucketLoop [] ignoredNodes (sl, leftToAdd) = (sl, leftToAdd)"
| "bucketLoop (c # bucket) ignoredNodes (sl, leftToAdd) =
     (if \<not> ignoredLoop ignoredNodes False
      then (let sl = AppendUnique [c] sl; leftToAdd = leftToAdd - 1
            in if leftToAdd = 0 then (sl, leftToAdd)
               else bucketLoop bucket ignoredNodes (sl, leftToAdd))
      else bucketLoop bucket ignoredNodes (sl, leftToAdd))"

text \<open>
  The loop \<open>for leftToAdd > 0 && len(indexList) > 0\<close>; reading
  \<open>ht.RoutingTable[index]\<close> outside the table panics.
\<close>

fun selectLoop ::
  "int list \<Rightarrow> hashTable \<Rightarrow> NetworkNode list \<Rightarrow> shortList \<times> int \<Rightarrow> panic + shortList" where
  "selectLoop [] ht ignoredNodes (sl, leftToAdd) = Inr sl"
| "selectLoop (index # indexList) ht ignoredNodes (sl, leftToAdd) =
     (if leftToAdd > 0
      then (if index < 0 \<or> int (length (RoutingTable ht)) \<le> index then Inl IndexOutOfRange
            else selectLoop indexList ht ignoredNodes
                   (bucketLoop (RoutingTable ht ! nat index) ignoredNodes (sl, leftToAdd)))
      else Inr sl)"

text \<open>
  The first part of \<open>getClosestContacts\<close>: the home index of the target and the list
  of bucket indices built around it.
\<close>

definition indexListOf :: "hashTable \<Rightarrow> byte list \<Rightarrow> (panic + int list) option" where
  "indexListOf ht target =
     (case getBucketIndexFromDifferingBit (ID (Self ht)) target of
        Inl p \<Rightarrow> Some (Inl p)
      | Inr index \<Rightarrow>
          (case buildIndexList [index] (index - 1) (index + 1) of
             None \<Rightarrow> None
           | Some indexList \<Rightarrow> Some (Inr indexList)))"

text \<open>
  \<open>getClosestContacts\<close>: \<open>None\<close> when the index loop never ends, a panic, or the
  shortlist. The shortlist starts as \<open>&shortList{}\<close>, every field zero: the target is
  not handed to it, and \<open>sort.Sort(sl)\<close> gets the shortlist alone.
\<close>

definition getClosestContacts ::
  "int \<Rightarrow> byte list \<Rightarrow> NetworkNode list \<Rightarrow> hashTable \<Rightarrow> (panic + shortList) option" where
  "getClosestContacts num target ignoredNodes ht =
     (case indexListOf ht target of
        None \<Rightarrow> None
      | Some (Inl p) \<Rightarrow> Some (Inl p)
      | Some (Inr indexList) \<Rightarrow>
          (case selectLoop indexList ht ignoredNodes (\<lparr>Nodes = [], Comparator = []\<rparr>, num) of
             Inl p \<Rightarrow> Some (Inl p)
           | Inr sl \<Rightarrow> Some (Inr (sortShortList sl))))"

text \<open>
  The probe sequence in the words of the specification: the home index, then
  \<open>home + 1\<close>, \<open>home - 1\<close>, \<open>home + 2\<close>, \<open>home - 2\<close> and so on, the indices outside
  \<open>[0, b)\<close> left out.
\<close>

definition inRange :: "int \<Rightarrow> bool" where
  "inRange i = (0 \<le> i \<and> i < b)"

definition probeUpTo :: "int \<Rightarrow> nat \<Rightarrow> int list" where
  "probeUpTo home t =
     home # concat (map (\<lambda>d. filter inRange [home + int d, home - int d]) [1..<Suc t])"

definition probeSequence :: "int \<Rightarrow> int list" where
  "probeSequence home = probeUpTo home (nat b - 1)"

section \<open>Example values\<close>

text \<open>
  Concrete inputs for the instances below: a stand-in for \<open>net.ParseIP\<close> that knows
  the one address used here, the options of a node with the all-zero identifier, the
  table \<open>newHashTable\<close> builds from them, and contacts whose identifiers start with the
  two given bytes (a first byte of 128 or more puts a contact in bucket 159 of that
  table).
\<close>

definition exampleParseIP :: "string \<Rightarrow> byte list" where
  "exampleParseIP s =
     (if s = ''127.0.0.1'' then [0, 0, 0, 0, 0, 0, 0, 0, 0, 0, 255, 255, 127, 0, 0, 1] else [])"

definition exampleOptions :: Options where
  "exampleOptions = \<lparr>Options.ID = Some (replicate 20 0), IP = ''127.0.0.1'', Port = ''8080''\<rparr>"

definition exampleSelf :: NetworkNode where
  "exampleSelf = \<lparr>ID = replicate 20 0, IP = exampleParseIP ''127.0.0.1'', Port = 8080\<rparr>"

definition exampleTable :: hashTable where
  "exampleTable = \<lparr>Self = exampleSelf, RoutingTable = replicate 160 []\<rparr>"

definition contact :: "byte \<Rightarrow> byte \<Rightarrow> node" where
  "contact x y = \<lparr>ID = x # y # replicate 18 0, IP = [10, 0, 0, 1], Port = 4000\<rparr>"

definition contacts :: "nat \<Rightarrow> node list" where
  "contacts n = map (\<lambda>i. contact 128 (of_nat i)) [0..<n]"

definition tableWith :: "node list \<Rightarrow> hashTable" where
  "tableWith bucket = \<lparr>Self = exampleSelf, RoutingTable = replicate 159 [] @ [bucket]\<rparr>"

definition threeContacts :: "node list" where
  "threeContacts = [contact 194 0, contact 193 0, contact 128 0]"

section \<open>The bucket index is the position of the first differing bit\<close>

declare scanBits.simps [simp del]

lemma hasBit_bit: "i < 8 \<Longrightarrow> hasBit x (of_nat i) = bit x (7 - i)"
proof -
  assume i: "i < 8"
  have u: "unat (7 - of_nat i :: 64 word) = 7 - i"
  proof -
    have a: "unat (of_nat i :: 64 word) = i"
      using i by (simp add: unat_of_nat)
    then have "(of_nat i :: 64 word) \<le> 7"
      using i by (simp add: word_le_nat_alt)
    then have "unat (7 - of_nat i :: 64 word) = unat (7 :: 64 word) - unat (of_nat i :: 64 word)"
      by (rule unat_sub)
    with a show ?thesis by simp
  qed
  have "(0 < x AND push_bit (7 - i) 1) = (x AND 2 ^ (7 - i) \<noteq> 0)"
    by (simp add: word_neq_0_conv)
  also have "\<dots> = bit x (7 - i)"
    by (simp add: and_exp_eq_0_iff_not_bit)
  finally show ?thesis
    by (simp add: hasBit_def Let_def u)
qed

lemma scanBits_Some:
  "scanBits x i = Some p \<Longrightarrow>
     i \<le> p \<and> p < 8 \<and> bit x (7 - p) \<and> (\<forall>q. i \<le> q \<and> q < p \<longrightarrow> \<not> bit x (7 - q))"
proof (induction x i rule: scanBits.induct)
  case (1 xr i)
  show ?case
  proof (cases "i < 8")
    case False
    with "1.prems" show ?thesis by (simp add: scanBits.simps)
  next
    case True
    show ?thesis
    proof (cases "hasBit xr (of_nat i)")
      case True
      with \<open>i < 8\<close> "1.prems" have "p = i" by (simp add: scanBits.simps)
      with True \<open>i < 8\<close> show ?thesis by (auto simp add: hasBit_bit)
    next
      case False
      with \<open>i < 8\<close> "1.prems" have r: "scanBits xr (i + 1) = Some p" by (simp add: scanBits.simps)
      from "1.IH"[OF \<open>i < 8\<close> False r]
      have ih: "i + 1 \<le> p" "p < 8" "bit xr (7 - p)" "\<forall>q. i + 1 \<le> q \<and> q < p \<longrightarrow> \<not> bit xr (7 - q)"
        by auto
      have "\<not> bit xr (7 - i)" using False \<open>i < 8\<close> by (simp add: hasBit_bit)
      then have "\<forall>q. i \<le> q \<and> q < p \<longrightarrow> \<not> bit xr (7 - q)"
        using ih(4) by (metis Suc_eq_plus1 Suc_leI le_neq_implies_less)
      with ih show ?thesis by simp
    qed
  qed
qed

lemma scanBits_None:
  "scanBits x i = None \<Longrightarrow> (\<forall>q. i \<le> q \<and> q < 8 \<longrightarrow> \<not> bit x (7 - q))"
proof (induction x i rule: scanBits.induct)
  case (1 xr i)
  show ?case
  proof (cases "i < 8")
    case False
    then show ?thesis by auto
  next
    case True
    from True "1.prems" have nb: "\<not> hasBit xr (of_nat i)"
      by (auto simp add: scanBits.simps split: if_splits)
    with True "1.prems" have r: "scanBits xr (i + 1) = None" by (simp add: scanBits.simps)
    from "1.IH"[OF True nb r] have ih: "\<forall>q. i + 1 \<le> q \<and> q < 8 \<longrightarrow> \<not> bit xr (7 - q)" .
    have "\<not> bit xr (7 - i)" using nb True by (simp add: hasBit_bit)
    then show ?thesis using ih by (metis Suc_eq_plus1 Suc_leI le_neq_implies_less)
  qed
qed

lemma scanBits_None_zero: "scanBits x 0 = None \<Longrightarrow> x = 0"
proof -
  assume "scanBits x 0 = None"
  then have nb: "\<forall>q. q < 8 \<longrightarrow> \<not> bit x (7 - q)" using scanBits_None by fastforce
  have "\<not> bit x n" for n
  proof (cases "n < 8")
    case True
    then have "7 - (7 - n) = n" "7 - n < 8" by auto
    with nb show ?thesis by metis
  next
    case False
    then show ?thesis by (auto dest: bit_imp_le_length)
  qed
  then show ?thesis by (simp add: bit_eq_iff)
qed

lemma scanBits_zero: "scanBits 0 0 = None"
  by code_simp


lemma length_byteBits: "length (byteBits x) = 8"
  by (simp add: byteBits_def)

lemma byteBits_nth: "q < 8 \<Longrightarrow> byteBits x ! q = bit x (7 - q)"
  by (simp add: byteBits_def)

lemma idBits_Cons: "idBits (x # xs) = byteBits x @ idBits xs"
  by (simp add: idBits_def)

lemma xorBytes_Cons: "xorBytes (x # xs) (y # ys) = (x XOR y) # xorBytes xs ys"
  by (simp add: xorBytes_def)

lemma differingBitLoop_differ:
  "length id1 = length id2 \<Longrightarrow> id1 \<noteq> id2 \<Longrightarrow>
   \<exists>p. p < 8 * length id1 \<and> idBits (xorBytes id1 id2) ! p \<and>
       (\<forall>q<p. \<not> idBits (xorBytes id1 id2) ! q) \<and>
       differingBitLoop j id1 id2 = Inr (b - (j * 8 + int p) - 1)"
proof (induction id1 id2 arbitrary: j rule: list_induct2)
  case Nil
  then show ?case by simp
next
  case (Cons x xs y ys)
  let ?bits = "idBits (xorBytes (x # xs) (y # ys))"
  have bits: "?bits = byteBits (x XOR y) @ idBits (xorBytes xs ys)"
    by (simp add: xorBytes_Cons idBits_Cons)
  show ?case
  proof (cases "scanBits (x XOR y) 0")
    case (Some i)
    from scanBits_Some[OF Some]
    have i: "i < 8" "bit (x XOR y) (7 - i)" "\<forall>q. q < i \<longrightarrow> \<not> bit (x XOR y) (7 - q)"
      by auto
    have 1: "i < 8 * length (x # xs)" using i(1) by simp
    have 2: "?bits ! i" using i(1,2) by (simp add: bits nth_append length_byteBits byteBits_nth)
    have 3: "\<forall>q<i. \<not> ?bits ! q"
      using i(1,3) by (simp add: bits nth_append length_byteBits byteBits_nth)
    have 4: "differingBitLoop j (x # xs) (y # ys) = Inr (b - (j * 8 + int i) - 1)"
      using Some by simp
    from 1 2 3 4 show ?thesis by blast
  next
    case None
    then have "x XOR y = 0" by (rule scanBits_None_zero)
    then have "(x XOR y) XOR y = y" by simp
    then have xy: "x = y" by (simp add: xor.assoc)
    with Cons.prems have "xs \<noteq> ys" by simp
    from Cons.IH[OF this, of "j + 1"] obtain p where
      p: "p < 8 * length xs" "idBits (xorBytes xs ys) ! p"
         "\<forall>q<p. \<not> idBits (xorBytes xs ys) ! q"
         "differingBitLoop (j + 1) xs ys = Inr (b - ((j + 1) * 8 + int p) - 1)"
      by blast
    have z: "\<forall>q<8. \<not> byteBits (x XOR y) ! q"
      using scanBits_None[OF None] by (simp add: byteBits_nth)
    have 1: "8 + p < 8 * length (x # xs)" using p(1) by simp
    have 2: "?bits ! (8 + p)" using p(2) by (simp add: bits nth_append length_byteBits)
    have 3: "\<forall>q<8 + p. \<not> ?bits ! q"
    proof (intro allI impI)
      fix q assume q: "q < 8 + p"
      show "\<not> ?bits ! q"
      proof (cases "q < 8")
        case True
        with z show ?thesis by (simp add: bits nth_append length_byteBits)
      next
        case False
        with q have "q - 8 < p" by simp
        with p(3) False show ?thesis by (simp add: bits nth_append length_byteBits)
      qed
    qed
    have 4: "differingBitLoop j (x # xs) (y # ys) = Inr (b - (j * 8 + int (8 + p)) - 1)"
      using None p(4) by (simp add: algebra_simps)
    from 1 2 3 4 show ?thesis by blast
  qed
qed

lemma differingBitLoop_same: "differingBitLoop j xs xs = Inr 0"
  by (induction xs arbitrary: j) (simp_all add: scanBits_zero)

lemma differingBitLoop_returns:
  "length id1 \<le> length id2 \<Longrightarrow> \<exists>r. differingBitLoop j id1 id2 = Inr r"
proof (induction j id1 id2 rule: differingBitLoop.induct)
  case (1 j id2)
  then show ?case by simp
next
  case (2 j x id1)
  then show ?case by simp
next
  case (3 j x id1 y id2)
  then show ?case by (cases "scanBits (x XOR y) 0") (simp_all add: Let_def)
qed

lemma differingBitLoop_range:
  "differingBitLoop j id1 id2 = Inr r \<Longrightarrow> 0 \<le> j \<Longrightarrow> j * 8 + 8 * int (length id1) \<le> b \<Longrightarrow>
   0 \<le> r \<and> r < b"
proof (induction j id1 id2 rule: differingBitLoop.induct)
  case (1 j id2)
  then show ?case by (simp add: b_def)
next
  case (2 j x id1)
  then show ?case by simp
next
  case (3 j x id1 y id2)
  show ?case
  proof (cases "scanBits (x XOR y) 0")
    case None
    with 3 show ?thesis by simp
  next
    case (Some i)
    from scanBits_Some[OF Some] have "i < 8" by simp
    with Some "3.prems" show ?thesis by (auto simp add: Let_def)
  qed
qed

lemma getBucketIndex_wf:
  "length id1 \<le> 20 \<Longrightarrow> length id1 \<le> length id2 \<Longrightarrow>
   \<exists>r. getBucketIndexFromDifferingBit id1 id2 = Inr r \<and> 0 \<le> r \<and> r < b"
proof -
  assume a: "length id1 \<le> 20" "length id1 \<le> length id2"
  from differingBitLoop_returns[OF a(2)] obtain r where r: "differingBitLoop 0 id1 id2 = Inr r"
    by blast
  have "0 * 8 + 8 * int (length id1) \<le> b" using a(1) by (simp add: b_def)
  from differingBitLoop_range[OF r _ this] r show ?thesis
    by (simp add: getBucketIndexFromDifferingBit_def)
qed

text \<open>
  Claim C6. For two 20-byte identifiers that differ, \<open>getBucketIndexFromDifferingBit\<close>
  returns \<open>b - 1 - p = 159 - p\<close>, where \<open>p\<close> is the position of the first set bit of
  their byte-wise XOR, counted from the most significant bit of byte 0; for identical
  identifiers it returns 0, and no panic.
\<close>

theorem getBucketIndexFromDifferingBit_first_set_bit:
  "(length id1 = 20 \<and> length id2 = 20 \<and> id1 \<noteq> id2 \<longrightarrow>
      (\<exists>p<160. idBits (xorBytes id1 id2) ! p \<and> (\<forall>q<p. \<not> idBits (xorBytes id1 id2) ! q) \<and>
         getBucketIndexFromDifferingBit id1 id2 = Inr (b - 1 - int p) \<and> b - 1 - int p = 159 - int p)) \<and>
   getBucketIndexFromDifferingBit id1 id1 = Inr 0"
proof (intro conjI impI)
  assume a: "length id1 = 20 \<and> length id2 = 20 \<and> id1 \<noteq> id2"
  then have "length id1 = length id2" "id1 \<noteq> id2" by simp_all
  from differingBitLoop_differ[OF this, of 0] a
  show "\<exists>p<160. idBits (xorBytes id1 id2) ! p \<and> (\<forall>q<p. \<not> idBits (xorBytes id1 id2) ! q) \<and>
         getBucketIndexFromDifferingBit id1 id2 = Inr (b - 1 - int p) \<and> b - 1 - int p = 159 - int p"
    by (auto simp add: getBucketIndexFromDifferingBit_def b_def)
next
  show "getBucketIndexFromDifferingBit id1 id1 = Inr 0"
    by (simp add: getBucketIndexFromDifferingBit_def differingBitLoop_same)
qed

theorem getBucketIndexFromDifferingBit_first_set_bit_witness:
  "length (0 # replicate 19 (0 :: byte)) = 20 \<and> length (32 # replicate 19 (0 :: byte)) = 20 \<and>
   0 # replicate 19 (0 :: byte) \<noteq> 32 # replicate 19 0 \<and>
   (\<exists>p<160. idBits (xorBytes (0 # replicate 19 0) (32 # replicate 19 0)) ! p \<and>
      (\<forall>q<p. \<not> idBits (xorBytes (0 # replicate 19 0) (32 # replicate 19 0)) ! q) \<and>
      getBucketIndexFromDifferingBit (0 # replicate 19 0) (32 # replicate 19 0) = Inr (b - 1 - int p) \<and>
      b - 1 - int p = 159 - int p) \<and>
   getBucketIndexFromDifferingBit (0 # replicate 19 0) (0 # replicate 19 0) = Inr 0"
  using getBucketIndexFromDifferingBit_first_set_bit [of "0 # replicate 19 0" "32 # replicate 19 0"]
  by simp

section \<open>The index list of the query\<close>

lemma probeUpTo_0: "probeUpTo home 0 = [home]"
  by (simp add: probeUpTo_def)

lemma probeUpTo_Suc:
  "probeUpTo home (Suc t) =
     probeUpTo home t @ filter inRange [home + int (Suc t), home - int (Suc t)]"
  by (simp add: probeUpTo_def)

lemma length_probeUpTo:
  "0 \<le> home \<Longrightarrow> home < b \<Longrightarrow>
   length (probeUpTo home t) = 1 + min t (nat (b - 1 - home)) + min t (nat home)"
proof (induction t)
  case 0
  then show ?case by (simp add: probeUpTo_0)
next
  case (Suc t)
  then show ?case
    by (auto simp add: probeUpTo_Suc inRange_def b_def)
qed

lemma buildIndexList_step:
  assumes "0 \<le> home" "home < b" "int (length (probeUpTo home t)) < b"
  shows "buildIndexList (probeUpTo home t) (home - 1 - int t) (home + 1 + int t) =
         buildIndexList (probeUpTo home (Suc t)) (home - 1 - int (Suc t)) (home + 1 + int (Suc t))"
proof -
  have l: "(if home + 1 + int t < b then probeUpTo home t @ [home + 1 + int t] else probeUpTo home t) @
        (if home - 1 - int t \<ge> 0 then [home - 1 - int t] else []) = probeUpTo home (Suc t)"
    using assms(1,2) by (auto simp add: probeUpTo_Suc inRange_def algebra_simps)
  have i: "home - 1 - int t - 1 = home - 1 - int (Suc t)" by simp
  have j: "home + 1 + int t + 1 = home + 1 + int (Suc t)" by simp
  show ?thesis
    by (subst buildIndexList.simps) (simp only: assms(3) if_True l i j)
qed

lemma buildIndexList_run:
  assumes "0 \<le> home" "home < b"
  shows "t \<le> max (nat home) (nat (b - 1 - home)) \<Longrightarrow>
         buildIndexList (probeUpTo home t) (home - 1 - int t) (home + 1 + int t) =
         Some (probeUpTo home (max (nat home) (nat (b - 1 - home))))"
proof (induction "max (nat home) (nat (b - 1 - home)) - t" arbitrary: t)
  case 0
  then have t: "t = max (nat home) (nat (b - 1 - home))" by linarith
  have "int (length (probeUpTo home t)) = b"
    using assms by (simp add: length_probeUpTo t b_def) 
  then have "\<not> int (length (probeUpTo home t)) < b" by simp
  then show ?case
    by (subst buildIndexList.simps) (simp add: t)
next
  case (Suc n)
  then have lt: "t < max (nat home) (nat (b - 1 - home))" by linarith
  have len: "int (length (probeUpTo home t)) < b"
    using assms lt by (auto simp add: length_probeUpTo b_def)
  have n: "n = max (nat home) (nat (b - 1 - home)) - Suc t"
    using Suc.hyps(2) by linarith
  have le: "Suc t \<le> max (nat home) (nat (b - 1 - home))"
    using lt by simp
  have "buildIndexList (probeUpTo home t) (home - 1 - int t) (home + 1 + int t) =
        buildIndexList (probeUpTo home (Suc t)) (home - 1 - int (Suc t)) (home + 1 + int (Suc t))"
    by (rule buildIndexList_step[OF assms len])
  also have "\<dots> = Some (probeUpTo home (max (nat home) (nat (b - 1 - home))))"
    by (rule Suc.hyps(1)[OF n le])
  finally show ?case .
qed

lemma probeUpTo_stable:
  assumes "0 \<le> home" "home < b"
  shows "max (nat home) (nat (b - 1 - home)) \<le> t \<Longrightarrow>
         probeUpTo home t = probeUpTo home (max (nat home) (nat (b - 1 - home)))"
proof (induction t)
  case 0
  then show ?case by simp
next
  case (Suc t)
  show ?case
  proof (cases "max (nat home) (nat (b - 1 - home)) \<le> t")
    case True
    then have "filter inRange [home + int (Suc t), home - int (Suc t)] = []"
      using assms by (auto simp add: inRange_def)
    with Suc.IH[OF True] show ?thesis by (simp only: probeUpTo_Suc append_Nil2)
  next
    case False
    with Suc.prems have "Suc t = max (nat home) (nat (b - 1 - home))" by linarith
    then show ?thesis by simp
  qed
qed

lemma buildIndexList_probeSequence:
  assumes "0 \<le> home" "home < b"
  shows "buildIndexList [home] (home - 1) (home + 1) = Some (probeSequence home)"
proof -
  have "max (nat home) (nat (b - 1 - home)) \<le> nat b - 1"
    using assms unfolding b_def by linarith
  from probeUpTo_stable[OF assms this]
  have "probeSequence home = probeUpTo home (max (nat home) (nat (b - 1 - home)))"
    by (simp add: probeSequence_def)
  with buildIndexList_run[OF assms, of 0] show ?thesis
    by (simp add: probeUpTo_0)
qed

lemma set_probeUpTo:
  assumes "0 \<le> home" "home < b"
  shows "set (probeUpTo home t) = {i. 0 \<le> i \<and> i < b \<and> \<bar>i - home\<bar> \<le> int t}"
proof (induction t)
  case 0
  have "\<And>i. (i = home) = (0 \<le> i \<and> i < b \<and> \<bar>i - home\<bar> \<le> 0)"
    using assms by linarith
  then show ?case by (simp add: probeUpTo_0 set_eq_iff)
next
  case (Suc t)
  have "i \<in> set (probeUpTo home (Suc t)) \<longleftrightarrow> 0 \<le> i \<and> i < b \<and> \<bar>i - home\<bar> \<le> int (Suc t)" for i
  proof -
    have "i \<in> set (probeUpTo home (Suc t)) \<longleftrightarrow>
          i \<in> set (probeUpTo home t) \<or>
          (inRange i \<and> (i = home + int (Suc t) \<or> i = home - int (Suc t)))"
      by (auto simp add: probeUpTo_Suc)
    also have "\<dots> \<longleftrightarrow> (0 \<le> i \<and> i < b \<and> \<bar>i - home\<bar> \<le> int t) \<or>
          (0 \<le> i \<and> i < b \<and> (i = home + int (Suc t) \<or> i = home - int (Suc t)))"
      by (simp add: Suc.IH inRange_def)
    also have "\<dots> \<longleftrightarrow> 0 \<le> i \<and> i < b \<and> \<bar>i - home\<bar> \<le> int (Suc t)"
      by linarith
    finally show ?thesis .
  qed
  then show ?case by blast
qed

lemma set_probeSequence:
  assumes "0 \<le> home" "home < b"
  shows "set (probeSequence home) = {0..<b}"
proof -
  have "\<And>i. (0 \<le> i \<and> i < b \<and> \<bar>i - home\<bar> \<le> int (nat b - 1)) = (0 \<le> i \<and> i < b)"
    using assms unfolding b_def by linarith
  then show ?thesis
    by (simp add: probeSequence_def set_probeUpTo[OF assms] set_eq_iff)
qed

lemma length_probeSequence:
  assumes "0 \<le> home" "home < b"
  shows "length (probeSequence home) = 160"
proof -
  have "1 + min (nat b - 1) (nat (b - 1 - home)) + min (nat b - 1) (nat home) = 160"
    using assms unfolding b_def by linarith
  then show ?thesis
    by (simp only: probeSequence_def length_probeUpTo[OF assms])
qed

lemma distinct_probeSequence:
  assumes "0 \<le> home" "home < b"
  shows "distinct (probeSequence home)"
proof (rule card_distinct)
  have "card {0..<b} = 160" by (simp add: b_def)
  then show "card (set (probeSequence home)) = length (probeSequence home)"
    by (simp only: set_probeSequence[OF assms] length_probeSequence[OF assms])
qed

section \<open>Construction and insertion\<close>

declare appendBuckets.simps [simp del]

lemma appendBuckets_replicate: "appendBuckets i rt = rt @ replicate (nat (b - i)) []"
proof (induction i rt rule: appendBuckets.induct)
  case (1 i rt)
  show ?case
  proof (cases "i < b")
    case True
    then have "nat (b - i) = Suc (nat (b - (i + 1)))" by simp
    with True "1.IH" show ?thesis
      by (subst appendBuckets.simps) (simp add: replicate_append_same)
  next
    case False
    then show ?thesis by (subst appendBuckets.simps) simp
  qed
qed

lemma newHashTable_table:
  "newHashTable parseIP rnd options = Inr (Inr ht) \<Longrightarrow> RoutingTable ht = replicate 160 []"
  by (auto simp add: newHashTable_def appendBuckets_replicate b_def
      split: option.splits if_splits sum.splits)

lemma containsID_iff: "containsID bucket i \<longleftrightarrow> i \<in> ID ` set bucket"
  by (induction bucket) auto

lemma addNode_unfold:
  assumes "getBucketIndexFromDifferingBit (ID (Self ht)) (ID n) = Inr i"
    and "0 \<le> i" and "i < int (length (RoutingTable ht))"
  shows "addNode n ht =
         Inr (if containsID (RoutingTable ht ! nat i) (ID n) \<or> k \<le> length (RoutingTable ht ! nat i)
              then ht
              else ht\<lparr>RoutingTable := (RoutingTable ht)[nat i := RoutingTable ht ! nat i @ [n]]\<rparr>)"
proof -
  have r: "\<not> (i < 0 \<or> int (length (RoutingTable ht)) \<le> i)"
    using assms(2,3) by simp
  show ?thesis
    unfolding addNode_def assms(1) sum.case if_not_P[OF r] Let_def
    by auto
qed

lemma addNode_Inr:
  assumes "addNode n ht = Inr ht'"
  shows "\<exists>i. getBucketIndexFromDifferingBit (ID (Self ht)) (ID n) = Inr i \<and> 0 \<le> i \<and>
             i < int (length (RoutingTable ht)) \<and>
             (ht' = ht \<or>
              (\<not> containsID (RoutingTable ht ! nat i) (ID n) \<and>
               length (RoutingTable ht ! nat i) < k \<and>
               ht' = ht\<lparr>RoutingTable := (RoutingTable ht)[nat i := RoutingTable ht ! nat i @ [n]]\<rparr>))"
proof (cases "getBucketIndexFromDifferingBit (ID (Self ht)) (ID n)")
  case (Inl p)
  with assms show ?thesis by (simp add: addNode_def)
next
  case (Inr i)
  have r: "0 \<le> i \<and> i < int (length (RoutingTable ht))"
  proof (rule ccontr)
    assume "\<not> (0 \<le> i \<and> i < int (length (RoutingTable ht)))"
    then have "i < 0 \<or> int (length (RoutingTable ht)) \<le> i" by linarith
    with assms Inr show False by (simp add: addNode_def)
  qed
  from addNode_unfold[OF Inr] r assms Inr show ?thesis
    by (auto split: if_splits)
qed

lemma addNode_full:
  assumes "getBucketIndexFromDifferingBit (ID (Self ht)) (ID n) = Inr i"
    and "0 \<le> i" and "i < int (length (RoutingTable ht))"
    and "k \<le> length (RoutingTable ht ! nat i)"
  shows "addNode n ht = Inr ht"
  using addNode_unfold[OF assms(1,2,3)] assms(4) by simp

lemma addNode_present:
  assumes "getBucketIndexFromDifferingBit (ID (Self ht)) (ID n) = Inr i"
    and "0 \<le> i" and "i < int (length (RoutingTable ht))"
    and "containsID (RoutingTable ht ! nat i) (ID n)"
  shows "addNode n ht = Inr ht"
  using addNode_unfold[OF assms(1,2,3)] assms(4) by simp

lemma addNode_returns:
  assumes "length (ID (Self ht)) \<le> 20" "length (ID (Self ht)) \<le> length (ID n)"
    and "length (RoutingTable ht) = 160"
  shows "\<exists>ht'. addNode n ht = Inr ht'"
proof -
  from getBucketIndex_wf[OF assms(1,2)] obtain i where
    i: "getBucketIndexFromDifferingBit (ID (Self ht)) (ID n) = Inr i" "0 \<le> i" "i < b" by blast
  with assms(3) have "i < int (length (RoutingTable ht))" by (simp add: b_def)
  from addNode_unfold[OF i(1,2) this] show ?thesis by blast
qed

lemma addNode_Self: "addNode n ht = Inr ht' \<Longrightarrow> Self ht' = Self ht"
  by (drule addNode_Inr) auto

lemma addNode_length: "addNode n ht = Inr ht' \<Longrightarrow> length (RoutingTable ht') = length (RoutingTable ht)"
  by (drule addNode_Inr) auto

lemma addNode_bounded:
  assumes "addNode n ht = Inr ht'" "\<forall>bucket\<in>set (RoutingTable ht). length bucket \<le> k"
  shows "\<forall>bucket\<in>set (RoutingTable ht'). length bucket \<le> k"
proof -
  from addNode_Inr[OF assms(1)] obtain i where
    i: "0 \<le> i" "i < int (length (RoutingTable ht))"
       "ht' = ht \<or> (length (RoutingTable ht ! nat i) < k \<and>
          ht' = ht\<lparr>RoutingTable := (RoutingTable ht)[nat i := RoutingTable ht ! nat i @ [n]]\<rparr>)"
    by blast
  from i(3) show ?thesis
  proof
    assume "ht' = ht"
    with assms(2) show ?thesis by simp
  next
    assume a: "length (RoutingTable ht ! nat i) < k \<and>
          ht' = ht\<lparr>RoutingTable := (RoutingTable ht)[nat i := RoutingTable ht ! nat i @ [n]]\<rparr>"
    show ?thesis
    proof
      fix bucket assume "bucket \<in> set (RoutingTable ht')"
      with a have "bucket \<in> insert (RoutingTable ht ! nat i @ [n]) (set (RoutingTable ht))"
        using set_update_subset_insert by fastforce
      with a assms(2) show "length bucket \<le> k" by auto
    qed
  qed
qed

lemma addNode_contacts:
  assumes "addNode n ht = Inr ht'" "bucket' \<in> set (RoutingTable ht')" "c \<in> set bucket'"
  shows "c = n \<or> (\<exists>bucket\<in>set (RoutingTable ht). c \<in> set bucket)"
proof -
  from addNode_Inr[OF assms(1)] obtain i where
    i: "0 \<le> i" "i < int (length (RoutingTable ht))"
       "ht' = ht \<or> ht' = ht\<lparr>RoutingTable := (RoutingTable ht)[nat i := RoutingTable ht ! nat i @ [n]]\<rparr>"
    by blast
  from i(3) show ?thesis
  proof
    assume "ht' = ht"
    with assms(2,3) show ?thesis by auto
  next
    assume a: "ht' = ht\<lparr>RoutingTable := (RoutingTable ht)[nat i := RoutingTable ht ! nat i @ [n]]\<rparr>"
    with assms(2) have "bucket' \<in> insert (RoutingTable ht ! nat i @ [n]) (set (RoutingTable ht))"
      using set_update_subset_insert by fastforce
    then show ?thesis
    proof
      assume "bucket' = RoutingTable ht ! nat i @ [n]"
      moreover have "nat i < length (RoutingTable ht)" using i(1,2) by linarith
      ultimately show ?thesis using assms(3) by (auto simp add: nth_mem)
    next
      assume "bucket' \<in> set (RoutingTable ht)"
      with assms(3) show ?thesis by auto
    qed
  qed
qed

lemma addNodes_Self: "addNodes ns ht = Inr ht' \<Longrightarrow> Self ht' = Self ht"
proof (induction ns arbitrary: ht)
  case Nil
  then show ?case by simp
next
  case (Cons n ns)
  then show ?case by (auto split: sum.splits dest: addNode_Self)
qed

lemma addNodes_length:
  "addNodes ns ht = Inr ht' \<Longrightarrow> length (RoutingTable ht') = length (RoutingTable ht)"
proof (induction ns arbitrary: ht)
  case Nil
  then show ?case by simp
next
  case (Cons n ns)
  then show ?case by (auto split: sum.splits dest: addNode_length)
qed

lemma addNodes_bounded:
  "addNodes ns ht = Inr ht' \<Longrightarrow> \<forall>bucket\<in>set (RoutingTable ht). length bucket \<le> k \<Longrightarrow>
   \<forall>bucket\<in>set (RoutingTable ht'). length bucket \<le> k"
proof (induction ns arbitrary: ht)
  case Nil
  then show ?case by simp
next
  case (Cons n ns)
  from Cons.prems(1) obtain ht1 where
    1: "addNode n ht = Inr ht1" and 2: "addNodes ns ht1 = Inr ht'"
    by (auto split: sum.splits)
  from addNode_bounded[OF 1 Cons.prems(2)] Cons.IH[OF 2] show ?case by blast
qed

lemma addNodes_contacts:
  "addNodes ns ht = Inr ht' \<Longrightarrow> bucket' \<in> set (RoutingTable ht') \<Longrightarrow> c \<in> set bucket' \<Longrightarrow>
   c \<in> set ns \<or> (\<exists>bucket\<in>set (RoutingTable ht). c \<in> set bucket)"
proof (induction ns arbitrary: ht)
  case Nil
  then show ?case by auto
next
  case (Cons n ns)
  from Cons.prems(1) obtain ht1 where
    1: "addNode n ht = Inr ht1" and 2: "addNodes ns ht1 = Inr ht'"
    by (auto split: sum.splits)
  from Cons.IH[OF 2 Cons.prems(2,3)]
  show ?case
  proof
    assume "c \<in> set ns"
    then show ?thesis by simp
  next
    assume "\<exists>bucket\<in>set (RoutingTable ht1). c \<in> set bucket"
    then obtain bucket where "bucket \<in> set (RoutingTable ht1)" "c \<in> set bucket" by blast
    from addNode_contacts[OF 1 this] show ?thesis by auto
  qed
qed

lemma addNodes_returns:
  "length (ID (Self ht)) \<le> 20 \<Longrightarrow> length (RoutingTable ht) = 160 \<Longrightarrow>
   \<forall>n\<in>set ns. length (ID (Self ht)) \<le> length (ID n) \<Longrightarrow> \<exists>ht'. addNodes ns ht = Inr ht'"
proof (induction ns arbitrary: ht)
  case Nil
  then show ?case by simp
next
  case (Cons n ns)
  from Cons.prems have "length (ID (Self ht)) \<le> length (ID n)" by simp
  from addNode_returns[OF Cons.prems(1) this Cons.prems(2)] obtain ht1 where
    1: "addNode n ht = Inr ht1" by blast
  have "\<exists>ht'. addNodes ns ht1 = Inr ht'"
    using Cons.IH[of ht1] Cons.prems addNode_Self[OF 1] addNode_length[OF 1] by simp
  with 1 show ?case by simp
qed

text \<open>Every contact sits in the bucket its identifier maps to.\<close>

lemma addNode_placed:
  assumes "addNode n ht = Inr ht'"
    and "\<forall>j<length (RoutingTable ht). \<forall>c\<in>set (RoutingTable ht ! j).
           getBucketIndexFromDifferingBit (ID (Self ht)) (ID c) = Inr (int j)"
  shows "\<forall>j<length (RoutingTable ht'). \<forall>c\<in>set (RoutingTable ht' ! j).
           getBucketIndexFromDifferingBit (ID (Self ht')) (ID c) = Inr (int j)"
proof -
  from addNode_Inr[OF assms(1)] obtain i where
    i: "getBucketIndexFromDifferingBit (ID (Self ht)) (ID n) = Inr i" "0 \<le> i"
       "i < int (length (RoutingTable ht))"
       "ht' = ht \<or> ht' = ht\<lparr>RoutingTable := (RoutingTable ht)[nat i := RoutingTable ht ! nat i @ [n]]\<rparr>"
    by blast
  from i(4) show ?thesis
  proof
    assume "ht' = ht"
    with assms(2) show ?thesis by simp
  next
    assume a: "ht' = ht\<lparr>RoutingTable := (RoutingTable ht)[nat i := RoutingTable ht ! nat i @ [n]]\<rparr>"
    show ?thesis
    proof (intro allI impI ballI)
      fix j c
      assume j: "j < length (RoutingTable ht')" and c: "c \<in> set (RoutingTable ht' ! j)"
      from j a have j': "j < length (RoutingTable ht)" by simp
      show "getBucketIndexFromDifferingBit (ID (Self ht')) (ID c) = Inr (int j)"
      proof (cases "j = nat i")
        case True
        with c a j' have "c = n \<or> c \<in> set (RoutingTable ht ! j)" by auto
        then show ?thesis
        proof
          assume "c = n"
          with i(1,2) True a show ?thesis by simp
        next
          assume "c \<in> set (RoutingTable ht ! j)"
          with assms(2) j' a show ?thesis by simp
        qed
      next
        case False
        with c a have "c \<in> set (RoutingTable ht ! j)" by simp
        with assms(2) j' a show ?thesis by simp
      qed
    qed
  qed
qed

lemma addNodes_placed:
  "addNodes ns ht = Inr ht' \<Longrightarrow>
   \<forall>j<length (RoutingTable ht). \<forall>c\<in>set (RoutingTable ht ! j).
      getBucketIndexFromDifferingBit (ID (Self ht)) (ID c) = Inr (int j) \<Longrightarrow>
   \<forall>j<length (RoutingTable ht'). \<forall>c\<in>set (RoutingTable ht' ! j).
      getBucketIndexFromDifferingBit (ID (Self ht')) (ID c) = Inr (int j)"
proof (induction ns arbitrary: ht)
  case Nil
  then show ?case by simp
next
  case (Cons n ns)
  from Cons.prems(1) obtain ht1 where
    1: "addNode n ht = Inr ht1" and 2: "addNodes ns ht1 = Inr ht'"
    by (auto split: sum.splits)
  from Cons.IH[OF 2 addNode_placed[OF 1 Cons.prems(2)]] show ?case .
qed

lemma newHashTable_no_panic:
  assumes "Options.ID options \<noteq> None \<or> rnd \<noteq> None"
  shows "newHashTable parseIP rnd options =
         Inr (if Options.IP options = [] \<or> Options.Port options = [] then Inl PortAndIPRequired
              else (case Atoi (Options.Port options) of
                      Inl err \<Rightarrow> Inl err
                    | Inr port \<Rightarrow>
                        Inr \<lparr>Self = \<lparr>ID = (case Options.ID options of Some i \<Rightarrow> i
                                            | None \<Rightarrow> the (newID rnd)),
                                     IP = parseIP (Options.IP options), Port = port\<rparr>,
                             RoutingTable = replicate 160 []\<rparr>))"
  using assms
  by (auto simp add: newHashTable_def newID_def appendBuckets_replicate b_def
      split: option.splits sum.splits)

subsection \<open>Construction\<close>

text \<open>
  Claim C9, as amended. When the options carry an identifier, or \<open>newID\<close> succeeds,
  \<open>newHashTable\<close> returns the error "Port and IP required" and no table if \<open>IP\<close> or
  \<open>Port\<close> is the empty string, returns the error of \<open>strconv.Atoi\<close> and no table if
  \<open>Port\<close> does not parse as an integer, and returns a table otherwise. A table it
  returns has exactly \<open>b = 160\<close> buckets, all empty, and still has 160 buckets after
  any sequence of \<open>addNode\<close> calls.
\<close>

theorem newHashTable_errors_and_buckets:
  assumes "Options.ID options \<noteq> None \<or> rnd \<noteq> None"
  shows "(Options.IP options = [] \<or> Options.Port options = [] \<longrightarrow>
            newHashTable parseIP rnd options = Inr (Inl PortAndIPRequired)) \<and>
         (Options.IP options \<noteq> [] \<and> Options.Port options \<noteq> [] \<and>
            Atoi (Options.Port options) = Inl err \<longrightarrow>
            newHashTable parseIP rnd options = Inr (Inl err)) \<and>
         (Options.IP options \<noteq> [] \<and> Options.Port options \<noteq> [] \<and>
            Atoi (Options.Port options) = Inr port \<longrightarrow>
            (\<exists>ht. newHashTable parseIP rnd options = Inr (Inr ht))) \<and>
         (newHashTable parseIP rnd options = Inr (Inr ht) \<longrightarrow>
            int (length (RoutingTable ht)) = b \<and> length (RoutingTable ht) = 160 \<and>
            (\<forall>bucket\<in>set (RoutingTable ht). bucket = []) \<and>
            (\<forall>ns ht'. addNodes ns ht = Inr ht' \<longrightarrow> length (RoutingTable ht') = 160))"
proof (intro conjI impI)
  assume "Options.IP options = [] \<or> Options.Port options = []"
  then show "newHashTable parseIP rnd options = Inr (Inl PortAndIPRequired)"
    by (simp add: newHashTable_no_panic[OF assms])
next
  assume "Options.IP options \<noteq> [] \<and> Options.Port options \<noteq> [] \<and>
            Atoi (Options.Port options) = Inl err"
  then show "newHashTable parseIP rnd options = Inr (Inl err)"
    by (simp add: newHashTable_no_panic[OF assms])
next
  assume "Options.IP options \<noteq> [] \<and> Options.Port options \<noteq> [] \<and>
            Atoi (Options.Port options) = Inr port"
  then show "\<exists>ht. newHashTable parseIP rnd options = Inr (Inr ht)"
    by (simp add: newHashTable_no_panic[OF assms])
next
  assume a: "newHashTable parseIP rnd options = Inr (Inr ht)"
  from newHashTable_table[OF a] show "int (length (RoutingTable ht)) = b"
    by (simp add: b_def)
  from newHashTable_table[OF a] show "length (RoutingTable ht) = 160" by simp
  from newHashTable_table[OF a] show "\<forall>bucket\<in>set (RoutingTable ht). bucket = []" by simp
  from newHashTable_table[OF a] show "\<forall>ns ht'. addNodes ns ht = Inr ht' \<longrightarrow> length (RoutingTable ht') = 160"
    by (auto dest: addNodes_length)
qed

theorem newHashTable_errors_and_buckets_witness:
  "newHashTable exampleParseIP None \<lparr>Options.ID = Some (replicate 20 0), IP = ''127.0.0.1'', Port = ''''\<rparr>
     = Inr (Inl PortAndIPRequired) \<and>
   Atoi ''80a'' = Inl AtoiError \<and>
   newHashTable exampleParseIP None \<lparr>Options.ID = Some (replicate 20 0), IP = ''127.0.0.1'', Port = ''80a''\<rparr>
     = Inr (Inl AtoiError) \<and>
   Atoi ''8080'' = Inr 8080 \<and>
   newHashTable exampleParseIP None exampleOptions = Inr (Inr exampleTable) \<and>
   length (RoutingTable exampleTable) = 160 \<and>
   list_all (\<lambda>bucket. bucket = []) (RoutingTable exampleTable) \<and>
   addNodes (contacts 25) exampleTable = Inr (tableWith (contacts 20)) \<and>
   length (RoutingTable (tableWith (contacts 20))) = 160"
proof -
  let ?noPort = "\<lparr>Options.ID = Some (replicate 20 0), IP = ''127.0.0.1'', Port = ''''\<rparr>"
  let ?badPort = "\<lparr>Options.ID = Some (replicate 20 0), IP = ''127.0.0.1'', Port = ''80a''\<rparr>"
  have a: "Atoi ''80a'' = Inl AtoiError" by code_simp
  have b: "Atoi ''8080'' = Inr 8080" by code_simp
  have t: "newHashTable exampleParseIP None exampleOptions = Inr (Inr exampleTable)" by code_simp
  have n: "addNodes (contacts 25) exampleTable = Inr (tableWith (contacts 20))" by code_simp
  have 1: "newHashTable exampleParseIP None ?noPort = Inr (Inl PortAndIPRequired)"
    using newHashTable_errors_and_buckets [of ?noPort None exampleParseIP] by simp
  have 2: "newHashTable exampleParseIP None ?badPort = Inr (Inl AtoiError)"
    using newHashTable_errors_and_buckets [of ?badPort None exampleParseIP AtoiError] a by simp
  have 3: "length (RoutingTable exampleTable) = 160 \<and>
           (\<forall>bucket\<in>set (RoutingTable exampleTable). bucket = []) \<and>
           length (RoutingTable (tableWith (contacts 20))) = 160"
    using newHashTable_errors_and_buckets [of exampleOptions None exampleParseIP _ _ exampleTable] t n
    by (simp add: exampleOptions_def)
  from a b t n 1 2 3 show ?thesis by (simp add: list_all_iff)
qed

text \<open>
  Claim C9 as stated fails: with no identifier in the options and a random source that
  fails, \<open>newHashTable\<close> panics although \<open>IP\<close> is missing, because the identifier is
  settled before \<open>IP\<close> and \<open>Port\<close> are looked at. No error is returned.
\<close>

theorem newHashTable_panics_before_error:
  "Options.IP \<lparr>Options.ID = None, IP = '''', Port = ''8080''\<rparr> = [] \<and>
   newHashTable exampleParseIP None \<lparr>Options.ID = None, IP = '''', Port = ''8080''\<rparr> = Inl NewIDFailed"
  by code_simp

subsection \<open>Bucket capacity\<close>

text \<open>
  Claim C3. After any sequence of \<open>addNode\<close> calls on a freshly constructed table, no
  bucket holds more than \<open>k = 20\<close> contacts. The sequence returns (no panic) when the
  Self identifier has at most 20 bytes and no contact's identifier is shorter than it.
\<close>

theorem addNodes_bucket_capacity:
  assumes "newHashTable parseIP rnd options = Inr (Inr ht0)"
  shows "(addNodes ns ht0 = Inr ht \<longrightarrow>
            (\<forall>bucket\<in>set (RoutingTable ht). length bucket \<le> k) \<and> k = 20) \<and>
         (length (ID (Self ht0)) \<le> 20 \<and> (\<forall>n\<in>set ns. length (ID (Self ht0)) \<le> length (ID n)) \<longrightarrow>
            (\<exists>ht'. addNodes ns ht0 = Inr ht'))"
proof (intro conjI impI)
  assume a: "addNodes ns ht0 = Inr ht"
  have "\<forall>bucket\<in>set (RoutingTable ht0). length bucket \<le> k"
    using newHashTable_table[OF assms] by simp
  from addNodes_bounded[OF a this] show "\<forall>bucket\<in>set (RoutingTable ht). length bucket \<le> k" .
  show "k = 20" by (simp add: k_def)
next
  assume "length (ID (Self ht0)) \<le> 20 \<and> (\<forall>n\<in>set ns. length (ID (Self ht0)) \<le> length (ID n))"
  then show "\<exists>ht'. addNodes ns ht0 = Inr ht'"
    using addNodes_returns[of ht0 ns] newHashTable_table[OF assms] by simp
qed

theorem addNodes_bucket_capacity_witness:
  "newHashTable exampleParseIP None exampleOptions = Inr (Inr exampleTable) \<and>
   addNodes (contacts 25) exampleTable = Inr (tableWith (contacts 20)) \<and>
   list_all (\<lambda>bucket. length bucket \<le> k) (RoutingTable (tableWith (contacts 20))) \<and> k = 20 \<and>
   length (ID (Self exampleTable)) \<le> 20 \<and>
   list_all (\<lambda>n. length (ID (Self exampleTable)) \<le> length (ID n)) (contacts 25)"
proof -
  have t: "newHashTable exampleParseIP None exampleOptions = Inr (Inr exampleTable)" by code_simp
  have n: "addNodes (contacts 25) exampleTable = Inr (tableWith (contacts 20))" by code_simp
  have l: "length (ID (Self exampleTable)) \<le> 20" by code_simp
  have m: "list_all (\<lambda>n. length (ID (Self exampleTable)) \<le> length (ID n)) (contacts 25)"
    by code_simp
  from addNodes_bucket_capacity [OF t, of "contacts 25" "tableWith (contacts 20)"] n
  have "(\<forall>bucket\<in>set (RoutingTable (tableWith (contacts 20))). length bucket \<le> k) \<and> k = 20"
    by simp
  with t n l m show ?thesis by (simp add: list_all_iff)
qed

subsection \<open>Self in the table\<close>

text \<open>
  Claim C2, as amended. After any sequence of \<open>addNode\<close> calls on a freshly
  constructed table, none of them with a contact that has the Self identifier, Self is
  unchanged and its identifier is in no bucket. The sequence returns (no panic) when
  the Self identifier has at most 20 bytes and no contact's identifier is shorter than
  it.
\<close>

theorem addNodes_without_self:
  assumes "newHashTable parseIP rnd options = Inr (Inr ht0)"
    and "\<forall>n\<in>set ns. ID n \<noteq> ID (Self ht0)"
  shows "(addNodes ns ht0 = Inr ht \<longrightarrow>
            Self ht = Self ht0 \<and>
            (\<forall>bucket\<in>set (RoutingTable ht). \<not> containsID bucket (ID (Self ht)))) \<and>
         (length (ID (Self ht0)) \<le> 20 \<and> (\<forall>n\<in>set ns. length (ID (Self ht0)) \<le> length (ID n)) \<longrightarrow>
            (\<exists>ht'. addNodes ns ht0 = Inr ht'))"
proof (intro conjI impI)
  assume a: "addNodes ns ht0 = Inr ht"
  from addNodes_Self[OF a] show s: "Self ht = Self ht0" .
  show "\<forall>bucket\<in>set (RoutingTable ht). \<not> containsID bucket (ID (Self ht))"
  proof
    fix bucket assume bk: "bucket \<in> set (RoutingTable ht)"
    show "\<not> containsID bucket (ID (Self ht))"
    proof
      assume "containsID bucket (ID (Self ht))"
      then obtain c where c: "c \<in> set bucket" "ID c = ID (Self ht)"
        by (auto simp add: containsID_iff)
      from addNodes_contacts[OF a bk c(1)] newHashTable_table[OF assms(1)]
      have "c \<in> set ns" by auto
      with assms(2) c(2) s show False by simp
    qed
  qed
next
  assume "length (ID (Self ht0)) \<le> 20 \<and> (\<forall>n\<in>set ns. length (ID (Self ht0)) \<le> length (ID n))"
  then show "\<exists>ht'. addNodes ns ht0 = Inr ht'"
    using addNodes_returns[of ht0 ns] newHashTable_table[OF assms(1)] by simp
qed

theorem addNodes_without_self_witness:
  "newHashTable exampleParseIP None exampleOptions = Inr (Inr exampleTable) \<and>
   list_all (\<lambda>n. ID n \<noteq> ID (Self exampleTable)) (contacts 25) \<and>
   addNodes (contacts 25) exampleTable = Inr (tableWith (contacts 20)) \<and>
   Self (tableWith (contacts 20)) = Self exampleTable \<and>
   list_all (\<lambda>bucket. \<not> containsID bucket (ID (Self (tableWith (contacts 20)))))
     (RoutingTable (tableWith (contacts 20)))"
proof -
  have t: "newHashTable exampleParseIP None exampleOptions = Inr (Inr exampleTable)" by code_simp
  have n: "addNodes (contacts 25) exampleTable = Inr (tableWith (contacts 20))" by code_simp
  have d: "list_all (\<lambda>n. ID n \<noteq> ID (Self exampleTable)) (contacts 25)" by code_simp
  then have d': "\<forall>n\<in>set (contacts 25). ID n \<noteq> ID (Self exampleTable)"
    by (simp add: list_all_iff)
  from addNodes_without_self [OF t d', of "tableWith (contacts 20)"] n
  have "Self (tableWith (contacts 20)) = Self exampleTable \<and>
        (\<forall>bucket\<in>set (RoutingTable (tableWith (contacts 20))).
           \<not> containsID bucket (ID (Self (tableWith (contacts 20)))))"
    by blast
  with t n d show ?thesis unfolding list_all_iff by blast
qed

text \<open>
  Claim C2 as stated fails: \<open>addNode\<close> has no check against Self. A contact with the
  Self identifier maps to bucket 0 (the identifiers are identical) and is appended
  there.
\<close>

theorem addNode_self_is_stored:
  "newHashTable exampleParseIP None exampleOptions = Inr (Inr exampleTable) \<and>
   ID exampleSelf = ID (Self exampleTable) \<and>
   addNodes [exampleSelf] exampleTable =
     Inr (exampleTable\<lparr>RoutingTable := [exampleSelf] # replicate 159 []\<rparr>) \<and>
   containsID (RoutingTable (exampleTable\<lparr>RoutingTable := [exampleSelf] # replicate 159 []\<rparr>) ! 0)
     (ID (Self (exampleTable\<lparr>RoutingTable := [exampleSelf] # replicate 159 []\<rparr>)))"
  by code_simp

subsection \<open>Duplicates and full buckets\<close>

text \<open>
  Claim C5. If the identifier of the contact already occurs in the bucket it maps to,
  \<open>addNode\<close> returns the table it was given: every bucket, every stored contact and
  its address are as before, whatever address the new contact carries.
\<close>

theorem addNode_duplicate_unchanged:
  assumes "getBucketIndexFromDifferingBit (ID (Self ht)) (ID n) = Inr i"
    and "0 \<le> i" and "i < int (length (RoutingTable ht))"
    and "containsID (RoutingTable ht ! nat i) (ID n)"
  shows "addNode n ht = Inr ht"
  using assms by (rule addNode_present)

theorem addNode_duplicate_unchanged_witness:
  "getBucketIndexFromDifferingBit (ID (Self (tableWith (contacts 3))))
     (ID ((contact 128 1)\<lparr>IP := [10, 0, 0, 2], Port := 5000\<rparr>)) = Inr 159 \<and>
   (0 :: int) \<le> 159 \<and> 159 < int (length (RoutingTable (tableWith (contacts 3)))) \<and>
   containsID (RoutingTable (tableWith (contacts 3)) ! nat 159)
     (ID ((contact 128 1)\<lparr>IP := [10, 0, 0, 2], Port := 5000\<rparr>)) \<and>
   addNode ((contact 128 1)\<lparr>IP := [10, 0, 0, 2], Port := 5000\<rparr>) (tableWith (contacts 3))
     = Inr (tableWith (contacts 3))"
proof -
  let ?n = "(contact 128 1)\<lparr>IP := [10, 0, 0, 2], Port := 5000\<rparr>"
  let ?ht = "tableWith (contacts 3)"
  have 1: "getBucketIndexFromDifferingBit (ID (Self ?ht)) (ID ?n) = Inr 159" by code_simp
  have 2: "(0 :: int) \<le> 159" by simp
  have 3: "159 < int (length (RoutingTable ?ht))" by code_simp
  have 4: "containsID (RoutingTable ?ht ! nat 159) (ID ?n)" by code_simp
  from addNode_duplicate_unchanged [OF 1 2 3 4] 1 2 3 4 show ?thesis by simp
qed

text \<open>
  Claim C4. In a table built by \<open>addNode\<close> calls from a fresh one, if the bucket a
  contact maps to already holds \<open>k = 20\<close> contacts, none of them with the contact's
  identifier, then \<open>addNode\<close> returns the table it was given (that bucket holds the
  same contacts in the same order, every other bucket is unchanged) and the contact's
  identifier is in no bucket of the table.
\<close>

theorem addNode_full_bucket_drop:
  assumes "newHashTable parseIP rnd options = Inr (Inr ht0)"
    and "addNodes ns ht0 = Inr ht"
    and "getBucketIndexFromDifferingBit (ID (Self ht)) (ID n) = Inr i"
    and "0 \<le> i" and "i < b"
    and "length (RoutingTable ht ! nat i) = k"
    and "\<not> containsID (RoutingTable ht ! nat i) (ID n)"
  shows "addNode n ht = Inr ht \<and>
         (\<forall>bucket\<in>set (RoutingTable ht). \<not> containsID bucket (ID n))"
proof
  have len: "length (RoutingTable ht) = 160"
    using addNodes_length[OF assms(2)] newHashTable_table[OF assms(1)] by simp
  then have r: "i < int (length (RoutingTable ht))" using assms(5) by (simp add: b_def)
  from addNode_full[OF assms(3,4) r] assms(6) show "addNode n ht = Inr ht" by simp
  have "\<forall>j<length (RoutingTable ht0). \<forall>c\<in>set (RoutingTable ht0 ! j).
          getBucketIndexFromDifferingBit (ID (Self ht0)) (ID c) = Inr (int j)"
    using newHashTable_table[OF assms(1)] by simp
  from addNodes_placed[OF assms(2) this]
  have placed: "\<forall>j<length (RoutingTable ht). \<forall>c\<in>set (RoutingTable ht ! j).
          getBucketIndexFromDifferingBit (ID (Self ht)) (ID c) = Inr (int j)" .
  show "\<forall>bucket\<in>set (RoutingTable ht). \<not> containsID bucket (ID n)"
  proof
    fix bucket assume "bucket \<in> set (RoutingTable ht)"
    then obtain j where j: "j < length (RoutingTable ht)" "bucket = RoutingTable ht ! j"
      by (auto simp add: in_set_conv_nth)
    show "\<not> containsID bucket (ID n)"
    proof
      assume cb: "containsID bucket (ID n)"
      then obtain c where c: "c \<in> set bucket" "ID c = ID n"
        by (auto simp add: containsID_iff)
      from placed j(1) c(1) have "getBucketIndexFromDifferingBit (ID (Self ht)) (ID c) = Inr (int j)"
        unfolding j(2) by blast
      then have "getBucketIndexFromDifferingBit (ID (Self ht)) (ID n) = Inr (int j)"
        by (simp only: c(2))
      with assms(3) have "i = int j" by simp
      then have "nat i = j" by simp
      with cb j(2) have "containsID (RoutingTable ht ! nat i) (ID n)" by simp
      with assms(7) show False by simp
    qed
  qed
qed

theorem addNode_full_bucket_drop_witness:
  "newHashTable exampleParseIP None exampleOptions = Inr (Inr exampleTable) \<and>
   addNodes (contacts 20) exampleTable = Inr (tableWith (contacts 20)) \<and>
   getBucketIndexFromDifferingBit (ID (Self (tableWith (contacts 20)))) (ID (contact 128 20)) = Inr 159 \<and>
   (0 :: int) \<le> 159 \<and> 159 < b \<and>
   length (RoutingTable (tableWith (contacts 20)) ! nat 159) = k \<and>
   \<not> containsID (RoutingTable (tableWith (contacts 20)) ! nat 159) (ID (contact 128 20)) \<and>
   addNode (contact 128 20) (tableWith (contacts 20)) = Inr (tableWith (contacts 20)) \<and>
   list_all (\<lambda>bucket. \<not> containsID bucket (ID (contact 128 20)))
     (RoutingTable (tableWith (contacts 20)))"
proof -
  let ?n = "contact 128 20"
  let ?ht = "tableWith (contacts 20)"
  have t: "newHashTable exampleParseIP None exampleOptions = Inr (Inr exampleTable)" by code_simp
  have a: "addNodes (contacts 20) exampleTable = Inr ?ht" by code_simp
  have 1: "getBucketIndexFromDifferingBit (ID (Self ?ht)) (ID ?n) = Inr 159" by code_simp
  have 2: "(0 :: int) \<le> 159" by simp
  have 3: "159 < b" by (simp add: b_def)
  have 4: "length (RoutingTable ?ht ! nat 159) = k" by code_simp
  have 5: "\<not> containsID (RoutingTable ?ht ! nat 159) (ID ?n)" by code_simp
  from addNode_full_bucket_drop [OF t a 1 2 3 4 5] t a 1 2 3 4 5 show ?thesis
    by (simp add: list_all_iff)
qed

section \<open>Properties of the closest-contacts query\<close>

lemma ignoredLoop_eq: "ignoredLoop ign acc = (acc \<or> ign \<noteq> [])"
  by (induction ign arbitrary: acc) auto

lemma bucketLoop_ignored: "ign \<noteq> [] \<Longrightarrow> bucketLoop bucket ign (sl, left) = (sl, left)"
  by (induction bucket) (simp_all add: ignoredLoop_eq)

lemma selectLoop_ignored:
  "ign \<noteq> [] \<Longrightarrow> \<forall>i\<in>set idxs. 0 \<le> i \<and> i < int (length (RoutingTable ht)) \<Longrightarrow>
   selectLoop idxs ht ign (sl, left) = Inr sl"
proof (induction idxs)
  case Nil
  then show ?case by simp
next
  case (Cons i idxs)
  then have "\<not> (i < 0 \<or> int (length (RoutingTable ht)) \<le> i)" by simp
  with Cons show ?case by (simp add: bucketLoop_ignored)
qed

lemma selectLoop_ignored_result:
  "ign \<noteq> [] \<Longrightarrow> selectLoop idxs ht ign (sl, left) = Inr sl' \<Longrightarrow> sl' = sl"
proof (induction idxs)
  case Nil
  then show ?case by simp
next
  case (Cons i idxs)
  then show ?case by (auto simp add: bucketLoop_ignored split: if_splits)
qed

lemma AppendUnique_append: "AppendUnique (xs @ ys) sl = AppendUnique ys (AppendUnique xs sl)"
  by (induction xs arbitrary: sl) simp_all

lemma AppendUnique_Cons: "AppendUnique (x # xs) sl = AppendUnique xs (AppendUnique [x] sl)"
  by simp

lemma bucketLoop_take:
  "0 < left \<Longrightarrow>
   bucketLoop bucket [] (sl, left) =
     (AppendUnique (take (nat left) bucket) sl, left - int (min (nat left) (length bucket)))"
proof (induction bucket arbitrary: sl left)
  case Nil
  then show ?case by simp
next
  case (Cons c bucket)
  show ?case
  proof (cases "left = 1")
    case True
    then show ?thesis by simp
  next
    case False
    with Cons.prems have l: "0 < left - 1" by simp
    have t: "take (nat left) (c # bucket) = c # take (nat (left - 1)) bucket"
      using Cons.prems by (simp add: take_Cons' nat_diff_distrib)
    have m: "left - int (min (nat left) (length (c # bucket))) =
             left - 1 - int (min (nat (left - 1)) (length bucket))"
      using Cons.prems by auto
    have "bucketLoop (c # bucket) [] (sl, left) = bucketLoop bucket [] (AppendUnique [c] sl, left - 1)"
      using False by (simp add: Let_def)
    also have "\<dots> = (AppendUnique (take (nat (left - 1)) bucket) (AppendUnique [c] sl),
                     left - 1 - int (min (nat (left - 1)) (length bucket)))"
      by (rule Cons.IH[OF l])
    finally show ?thesis unfolding t m by simp
  qed
qed

lemma selectLoop_take:
  "\<forall>i\<in>set idxs. 0 \<le> i \<and> i < int (length (RoutingTable ht)) \<Longrightarrow>
   selectLoop idxs ht [] (sl, left) =
     Inr (AppendUnique (take (nat left) (concat (map (\<lambda>i. RoutingTable ht ! nat i) idxs))) sl)"
proof (induction idxs arbitrary: sl left)
  case Nil
  then show ?case by simp
next
  case (Cons i idxs)
  then have r: "\<not> (i < 0 \<or> int (length (RoutingTable ht)) \<le> i)" by simp
  from Cons.prems have rest: "\<forall>i\<in>set idxs. 0 \<le> i \<and> i < int (length (RoutingTable ht))" by simp
  show ?case
  proof (cases "0 < left")
    case False
    then show ?thesis by simp
  next
    case True
    let ?bucket = "RoutingTable ht ! nat i"
    let ?rest = "concat (map (\<lambda>i. RoutingTable ht ! nat i) idxs)"
    have n: "nat (left - int (min (nat left) (length ?bucket))) = nat left - length ?bucket"
      using True by auto
    have "selectLoop (i # idxs) ht [] (sl, left) =
          selectLoop idxs ht [] (bucketLoop ?bucket [] (sl, left))"
      using True r by simp
    also have "\<dots> = selectLoop idxs ht []
          (AppendUnique (take (nat left) ?bucket) sl, left - int (min (nat left) (length ?bucket)))"
      by (simp only: bucketLoop_take[OF True])
    also have "\<dots> = Inr (AppendUnique (take (nat left - length ?bucket) ?rest)
                          (AppendUnique (take (nat left) ?bucket) sl))"
      by (simp only: Cons.IH[OF rest] n)
    also have "\<dots> = Inr (AppendUnique (take (nat left) (?bucket @ ?rest)) sl)"
      by (simp only: take_append AppendUnique_append)
    finally show ?thesis by simp
  qed
qed

lemma indexListOf_wf:
  assumes "length (ID (Self ht)) \<le> 20" "length (ID (Self ht)) \<le> length target"
  shows "\<exists>home. getBucketIndexFromDifferingBit (ID (Self ht)) target = Inr home \<and>
           0 \<le> home \<and> home < b \<and> indexListOf ht target = Some (Inr (probeSequence home))"
proof -
  from getBucketIndex_wf[OF assms] obtain home where
    h: "getBucketIndexFromDifferingBit (ID (Self ht)) target = Inr home" "0 \<le> home" "home < b"
    by blast
  from buildIndexList_probeSequence[OF h(2,3)] h show ?thesis
    by (simp add: indexListOf_def)
qed

lemma getClosestContacts_wf:
  assumes "length (ID (Self ht)) \<le> 20" "length (ID (Self ht)) \<le> length target"
    and "length (RoutingTable ht) = 160"
  shows "\<exists>home. getBucketIndexFromDifferingBit (ID (Self ht)) target = Inr home \<and>
           0 \<le> home \<and> home < b \<and>
           getClosestContacts num target ign ht =
             Some (Inr (sortShortList
               (if ign = []
                then AppendUnique
                       (take (nat num)
                          (concat (map (\<lambda>i. RoutingTable ht ! nat i) (probeSequence home))))
                       \<lparr>Nodes = [], Comparator = []\<rparr>
                else \<lparr>Nodes = [], Comparator = []\<rparr>)))"
proof -
  from indexListOf_wf[OF assms(1,2)] obtain home where
    h: "getBucketIndexFromDifferingBit (ID (Self ht)) target = Inr home" "0 \<le> home" "home < b"
       "indexListOf ht target = Some (Inr (probeSequence home))"
    by blast
  have r: "\<forall>i\<in>set (probeSequence home). 0 \<le> i \<and> i < int (length (RoutingTable ht))"
    using set_probeSequence[OF h(2,3)] assms(3) by (simp add: b_def)
  have "getClosestContacts num target ign ht =
             Some (Inr (sortShortList
               (if ign = []
                then AppendUnique
                       (take (nat num)
                          (concat (map (\<lambda>i. RoutingTable ht ! nat i) (probeSequence home))))
                       \<lparr>Nodes = [], Comparator = []\<rparr>
                else \<lparr>Nodes = [], Comparator = []\<rparr>)))"
  proof (cases "ign = []")
    case True
    then show ?thesis
      by (simp add: getClosestContacts_def h(4) selectLoop_take[OF r])
  next
    case False
    then show ?thesis
      by (simp add: getClosestContacts_def h(4) selectLoop_ignored[OF False r])
  qed
  with h show ?thesis by blast
qed

lemma Nodes_AppendUnique_subset: "set (Nodes sl) \<subseteq> set (Nodes (AppendUnique xs sl))"
proof (induction xs arbitrary: sl)
  case Nil
  then show ?case by simp
next
  case (Cons x xs)
  have "set (Nodes sl) \<subseteq> set (Nodes (if containsID (Nodes sl) (ID x) then sl else sl\<lparr>Nodes := Nodes sl @ [x]\<rparr>))"
    by auto
  also have "\<dots> \<subseteq> set (Nodes (AppendUnique (x # xs) sl))"
    using Cons.IH by simp
  finally show ?case .
qed

lemma Nodes_sortShortList: "set (Nodes (sortShortList sl)) = set (Nodes sl)"
  by (simp add: sortShortList_def)

lemma sortShortList_empty:
  "sortShortList \<lparr>Nodes = [], Comparator = []\<rparr> = \<lparr>Nodes = [], Comparator = []\<rparr>"
  by (simp add: sortShortList_def)

text \<open>
  Claim C7. For a Self identifier of at most 20 bytes and a target at least as long
  (20 bytes each, for well-formed identifiers), the index list \<open>getClosestContacts\<close>
  builds is the home index followed by \<open>home + 1\<close>, \<open>home - 1\<close>, \<open>home + 2\<close>,
  \<open>home - 2\<close> and so on, the indices outside \<open>[0, 160)\<close> left out; it holds each of
  the 160 bucket indices exactly once.
\<close>

theorem indexListOf_probe_sequence:
  assumes "length (ID (Self ht)) \<le> 20" "length (ID (Self ht)) \<le> length target"
  shows "\<exists>home. getBucketIndexFromDifferingBit (ID (Self ht)) target = Inr home \<and>
           indexListOf ht target = Some (Inr (probeSequence home)) \<and>
           distinct (probeSequence home) \<and> set (probeSequence home) = {0..<b} \<and>
           length (probeSequence home) = 160"
proof -
  from indexListOf_wf[OF assms] obtain home where
    h: "getBucketIndexFromDifferingBit (ID (Self ht)) target = Inr home" "0 \<le> home" "home < b"
       "indexListOf ht target = Some (Inr (probeSequence home))"
    by blast
  from h distinct_probeSequence[OF h(2,3)] set_probeSequence[OF h(2,3)]
    length_probeSequence[OF h(2,3)]
  show ?thesis by blast
qed

theorem indexListOf_probe_sequence_witness:
  "length (ID (Self exampleTable)) \<le> 20 \<and>
   length (ID (Self exampleTable)) \<le> length (ID (contact 32 0)) \<and>
   getBucketIndexFromDifferingBit (ID (Self exampleTable)) (ID (contact 32 0)) = Inr 157 \<and>
   indexListOf exampleTable (ID (contact 32 0)) = Some (Inr (probeSequence 157)) \<and>
   take 7 (probeSequence 157) = [157, 158, 156, 159, 155, 154, 153] \<and>
   distinct (probeSequence 157) \<and> set (probeSequence 157) = {0..<b} \<and>
   length (probeSequence 157) = 160"
proof -
  have 1: "length (ID (Self exampleTable)) \<le> 20" by code_simp
  have 2: "length (ID (Self exampleTable)) \<le> length (ID (contact 32 0))" by code_simp
  have 3: "getBucketIndexFromDifferingBit (ID (Self exampleTable)) (ID (contact 32 0)) = Inr 157"
    by code_simp
  have 4: "take 7 (probeSequence 157) = [157, 158, 156, 159, 155, 154, 153]" by code_simp
  from indexListOf_probe_sequence [OF 1 2] 3
  have "indexListOf exampleTable (ID (contact 32 0)) = Some (Inr (probeSequence 157)) \<and>
        distinct (probeSequence 157) \<and> set (probeSequence 157) = {0..<b} \<and>
        length (probeSequence 157) = 160"
    by auto
  with 1 2 3 4 show ?thesis by blast
qed

text \<open>
  Claim C10. If the ignore list is not empty, every shortlist \<open>getClosestContacts\<close>
  returns is empty, for every table state, target and count, whatever the buckets hold
  and whatever the ignore list names. It does return (the empty shortlist, no panic) on
  a table of 160 buckets with a Self identifier of at most 20 bytes, for every target
  at least as long.
\<close>

theorem getClosestContacts_nonempty_ignore_list:
  assumes "ign \<noteq> []"
  shows "(getClosestContacts num target ign ht = Some (Inr sl) \<longrightarrow> Nodes sl = []) \<and>
         (length (ID (Self ht)) \<le> 20 \<and> length (ID (Self ht)) \<le> length target \<and>
          length (RoutingTable ht) = 160 \<longrightarrow>
            getClosestContacts num target ign ht = Some (Inr \<lparr>Nodes = [], Comparator = []\<rparr>))"
proof (intro conjI impI)
  assume "getClosestContacts num target ign ht = Some (Inr sl)"
  then obtain indexList sl0 where
    "selectLoop indexList ht ign (\<lparr>Nodes = [], Comparator = []\<rparr>, num) = Inr sl0"
    "sl = sortShortList sl0"
    by (auto simp add: getClosestContacts_def split: option.splits sum.splits)
  with selectLoop_ignored_result[OF assms] have "sl = sortShortList \<lparr>Nodes = [], Comparator = []\<rparr>"
    by blast
  then show "Nodes sl = []" by (simp add: sortShortList_empty)
next
  assume "length (ID (Self ht)) \<le> 20 \<and> length (ID (Self ht)) \<le> length target \<and>
          length (RoutingTable ht) = 160"
  then have w: "length (ID (Self ht)) \<le> 20" "length (ID (Self ht)) \<le> length target"
    "length (RoutingTable ht) = 160" by simp_all
  from getClosestContacts_wf[OF w, of num ign] assms
  show "getClosestContacts num target ign ht = Some (Inr \<lparr>Nodes = [], Comparator = []\<rparr>)"
    by (auto simp add: sortShortList_empty)
qed

theorem getClosestContacts_nonempty_ignore_list_witness:
  "length (ID (Self (tableWith threeContacts))) \<le> 20 \<and>
   length (ID (Self (tableWith threeContacts))) \<le> length (ID (contact 192 0)) \<and>
   length (RoutingTable (tableWith threeContacts)) = 160 \<and>
   [contact 7 7] \<noteq> [] \<and>
   getClosestContacts 3 (ID (contact 192 0)) [contact 7 7] (tableWith threeContacts) =
     Some (Inr \<lparr>Nodes = [], Comparator = []\<rparr>)"
proof -
  have 1: "length (ID (Self (tableWith threeContacts))) \<le> 20" by code_simp
  have 2: "length (ID (Self (tableWith threeContacts))) \<le> length (ID (contact 192 0))"
    by code_simp
  have 3: "length (RoutingTable (tableWith threeContacts)) = 160" by code_simp
  have 4: "[contact 7 7] \<noteq> []" by simp
  from getClosestContacts_nonempty_ignore_list
         [OF 4, of 3 "ID (contact 192 0)" "tableWith threeContacts"] 1 2 3
  have "getClosestContacts 3 (ID (contact 192 0)) [contact 7 7] (tableWith threeContacts) =
     Some (Inr \<lparr>Nodes = [], Comparator = []\<rparr>)"
    by blast
  with 1 2 3 4 show ?thesis by blast
qed

text \<open>
  Claim C1 fails on the code at this input: the table holds one contact, the ignore
  list names another identifier, and the query for one contact returns nothing; with the
  empty ignore list it returns the contact. The loop over the ignore list compares each
  entry with itself, not with the contact at hand.
\<close>

theorem getClosestContacts_drops_unlisted_contact:
  "addNodes [contact 194 0] exampleTable = Inr (tableWith [contact 194 0]) \<and>
   ID (contact 194 0) \<noteq> ID (contact 7 7) \<and>
   getClosestContacts 1 (ID (contact 192 0)) [contact 7 7] (tableWith [contact 194 0]) =
     Some (Inr \<lparr>Nodes = [], Comparator = []\<rparr>) \<and>
   getClosestContacts 1 (ID (contact 192 0)) [] (tableWith [contact 194 0]) =
     Some (Inr \<lparr>Nodes = [contact 194 0], Comparator = []\<rparr>)"
  by code_simp

text \<open>
  The target enters \<open>getClosestContacts\<close> through the home index alone: two targets
  with the same home index get the same shortlist, in the same order.
\<close>

lemma getClosestContacts_same_home:
  "getBucketIndexFromDifferingBit (ID (Self ht)) t1 =
     getBucketIndexFromDifferingBit (ID (Self ht)) t2 \<Longrightarrow>
   getClosestContacts num t1 ign ht = getClosestContacts num t2 ign ht"
  by (simp add: getClosestContacts_def indexListOf_def)

text \<open>
  Claim C8, as amended. On a table of 160 buckets with a Self identifier of at most 20
  bytes, for every target at least as long, every ignore list and every count,
  \<open>getClosestContacts\<close> returns for \<open>count\<close> and for \<open>count + 1\<close>, and every contact
  of the first result is a contact of the second. Nothing is said about the order of
  the results.
\<close>

theorem getClosestContacts_superset:
  assumes "length (ID (Self ht)) \<le> 20" "length (ID (Self ht)) \<le> length target"
    and "length (RoutingTable ht) = 160"
  shows "\<exists>sl sl'. getClosestContacts num target ign ht = Some (Inr sl) \<and>
           getClosestContacts (num + 1) target ign ht = Some (Inr sl') \<and>
           set (Nodes sl) \<subseteq> set (Nodes sl')"
proof -
  from getClosestContacts_wf[OF assms, of num ign] obtain home where
    h: "getBucketIndexFromDifferingBit (ID (Self ht)) target = Inr home"
    and 1: "getClosestContacts num target ign ht =
             Some (Inr (sortShortList
               (if ign = []
                then AppendUnique
                       (take (nat num)
                          (concat (map (\<lambda>i. RoutingTable ht ! nat i) (probeSequence home))))
                       \<lparr>Nodes = [], Comparator = []\<rparr>
                else \<lparr>Nodes = [], Comparator = []\<rparr>)))"
    by blast
  from getClosestContacts_wf[OF assms, of "num + 1" ign] h have
    2: "getClosestContacts (num + 1) target ign ht =
             Some (Inr (sortShortList
               (if ign = []
                then AppendUnique
                       (take (nat (num + 1))
                          (concat (map (\<lambda>i. RoutingTable ht ! nat i) (probeSequence home))))
                       \<lparr>Nodes = [], Comparator = []\<rparr>
                else \<lparr>Nodes = [], Comparator = []\<rparr>)))"
    by auto
  let ?all = "concat (map (\<lambda>i. RoutingTable ht ! nat i) (probeSequence home))"
  let ?e = "\<lparr>Nodes = [], Comparator = []\<rparr>"
  have "nat (num + 1) = nat num + (nat (num + 1) - nat num)" by simp
  then have "take (nat (num + 1)) ?all =
        take (nat num) ?all @ take (nat (num + 1) - nat num) (drop (nat num) ?all)"
    by (metis take_add)
  then have "AppendUnique (take (nat (num + 1)) ?all) ?e =
        AppendUnique (take (nat (num + 1) - nat num) (drop (nat num) ?all))
          (AppendUnique (take (nat num) ?all) ?e)"
    by (simp only: AppendUnique_append)
  then have "set (Nodes (AppendUnique (take (nat num) ?all) ?e)) \<subseteq>
        set (Nodes (AppendUnique (take (nat (num + 1)) ?all) ?e))"
    by (simp only: Nodes_AppendUnique_subset)
  then have "set (Nodes (sortShortList (if ign = [] then AppendUnique (take (nat num) ?all) ?e else ?e)))
      \<subseteq> set (Nodes (sortShortList (if ign = [] then AppendUnique (take (nat (num + 1)) ?all) ?e else ?e)))"
    by (simp add: Nodes_sortShortList)
  with 1 2 show ?thesis by blast
qed

theorem getClosestContacts_superset_witness:
  "length (ID (Self (tableWith threeContacts))) \<le> 20 \<and>
   length (ID (Self (tableWith threeContacts))) \<le> length (ID (contact 192 0)) \<and>
   length (RoutingTable (tableWith threeContacts)) = 160 \<and>
   getClosestContacts 1 (ID (contact 192 0)) [] (tableWith threeContacts) =
     Some (Inr \<lparr>Nodes = [contact 194 0], Comparator = []\<rparr>) \<and>
   getClosestContacts (1 + 1) (ID (contact 192 0)) [] (tableWith threeContacts) =
     Some (Inr \<lparr>Nodes = [contact 193 0, contact 194 0], Comparator = []\<rparr>) \<and>
   set (Nodes \<lparr>Nodes = [contact 194 0], Comparator = []\<rparr>) \<subseteq>
     set (Nodes \<lparr>Nodes = [contact 193 0, contact 194 0], Comparator = []\<rparr>)"
proof -
  have 1: "length (ID (Self (tableWith threeContacts))) \<le> 20" by code_simp
  have 2: "length (ID (Self (tableWith threeContacts))) \<le> length (ID (contact 192 0))"
    by code_simp
  have 3: "length (RoutingTable (tableWith threeContacts)) = 160" by code_simp
  have a: "getClosestContacts 1 (ID (contact 192 0)) [] (tableWith threeContacts) =
     Some (Inr \<lparr>Nodes = [contact 194 0], Comparator = []\<rparr>)" by code_simp
  have b: "getClosestContacts (1 + 1) (ID (contact 192 0)) [] (tableWith threeContacts) =
     Some (Inr \<lparr>Nodes = [contact 193 0, contact 194 0], Comparator = []\<rparr>)" by code_simp
  from getClosestContacts_superset [OF 1 2 3, of 1 "[]"] a b
  have "set (Nodes \<lparr>Nodes = [contact 194 0], Comparator = []\<rparr>) \<subseteq>
     set (Nodes \<lparr>Nodes = [contact 193 0, contact 194 0], Comparator = []\<rparr>)"
    by auto
  with 1 2 3 a b show ?thesis by blast
qed

text \<open>
  Claim C8 as stated fails. The table holds three contacts in bucket 159, stored in
  the order 194, 193, 128 (first byte of the identifier); the target starts with 192.
  The result for count 1 is the first stored contact, the result for count 2 starts
  with the second one, so the first result is no prefix of the second. The result for
  count 3 puts the contact 128 before the contact 193, which is strictly closer to the
  target: the shortlist is never given the target.
\<close>

theorem getClosestContacts_not_sorted_not_prefix:
  "addNodes threeContacts exampleTable = Inr (tableWith threeContacts) \<and>
   getClosestContacts 1 (ID (contact 192 0)) [] (tableWith threeContacts) =
     Some (Inr \<lparr>Nodes = [contact 194 0], Comparator = []\<rparr>) \<and>
   getClosestContacts 2 (ID (contact 192 0)) [] (tableWith threeContacts) =
     Some (Inr \<lparr>Nodes = [contact 193 0, contact 194 0], Comparator = []\<rparr>) \<and>
   take 1 [contact 193 0, contact 194 0] \<noteq> [contact 194 0] \<and>
   getClosestContacts 3 (ID (contact 192 0)) [] (tableWith threeContacts) =
     Some (Inr \<lparr>Nodes = [contact 128 0, contact 193 0, contact 194 0], Comparator = []\<rparr>) \<and>
   xorDistance (ID (contact 193 0)) (ID (contact 192 0)) <
     xorDistance (ID (contact 128 0)) (ID (contact 192 0))"
  by code_simp

end
